theory Spec2Isabelle
  imports Main "HOL-Library.Multiset" "HOL-Library.Code_Target_Nat"
begin

section \<open>Text of a document\<close>

text \<open>
  A Python \<open>str\<close> is a sequence of Unicode code points. A code point is modelled as a
  natural number and a \<open>str\<close> as a list of them; \<open>ascii\<close> embeds an ASCII literal.
\<close>

type_synonym codepoint = nat

type_synonym pystr = "codepoint list"

definition ascii :: "string \<Rightarrow> pystr" where
  "ascii s = map of_char s"

definition newline :: codepoint where
  "newline = 10"

text \<open>
  In a \<open>str\<close> pattern compiled without \<open>re.ASCII\<close> the class \<open>\d\<close> matches every
  character of the Unicode category Nd, and \<open>str.strip()\<close> removes the characters for
  which \<open>str.isspace()\<close> holds. Both tables are those of the Unicode Character Database
  14.0, the one of Python 3.11, as ranges of code points.
\<close>

definition decimal_ranges :: "(codepoint \<times> codepoint) list" where
  "decimal_ranges =
     [(48, 57), (1632, 1641), (1776, 1785), (1984, 1993), (2406, 2415), (2534, 2543),
      (2662, 2671), (2790, 2799), (2918, 2927), (3046, 3055), (3174, 3183), (3302, 3311),
      (3430, 3439), (3558, 3567), (3664, 3673), (3792, 3801), (3872, 3881), (4160, 4169),
      (4240, 4249), (6112, 6121), (6160, 6169), (6470, 6479), (6608, 6617), (6784, 6793),
      (6800, 6809), (6992, 7001), (7088, 7097), (7232, 7241), (7248, 7257), (42528, 42537),
      (43216, 43225), (43264, 43273), (43472, 43481), (43504, 43513), (43600, 43609),
      (44016, 44025), (65296, 65305), (66720, 66729), (68912, 68921), (69734, 69743),
      (69872, 69881), (69942, 69951), (70096, 70105), (70384, 70393), (70736, 70745),
      (70864, 70873), (71248, 71257), (71360, 71369), (71472, 71481), (71904, 71913),
      (72016, 72025), (72784, 72793), (73040, 73049), (73120, 73129), (92768, 92777),
      (92864, 92873), (93008, 93017), (120782, 120831), (123200, 123209),
      (123632, 123641), (125264, 125273), (130032, 130041)]"

definition whitespace_ranges :: "(codepoint \<times> codepoint) list" where
  "whitespace_ranges =
     [(9, 13), (28, 32), (133, 133), (160, 160), (5760, 5760), (8192, 8202), (8232, 8233),
      (8239, 8239), (8287, 8287), (12288, 12288)]"

definition in_ranges :: "(codepoint \<times> codepoint) list \<Rightarrow> codepoint \<Rightarrow> bool" where
  "in_ranges rs c = list_ex (\<lambda>(lo, hi). lo \<le> c \<and> c \<le> hi) rs"

definition is_digit :: "codepoint \<Rightarrow> bool" where
  "is_digit c = in_ranges decimal_ranges c"

definition is_space :: "codepoint \<Rightarrow> bool" where
  "is_space c = in_ranges whitespace_ranges c"

text \<open>The ASCII digits \<open>0\<close> to \<open>9\<close>.\<close>

definition ascii_digit :: "codepoint \<Rightarrow> bool" where
  "ascii_digit c \<longleftrightarrow> 48 \<le> c \<and> c \<le> 57"

text \<open>\<open>s.strip()\<close>: leading and trailing whitespace removed.\<close>

definition strip :: "pystr \<Rightarrow> pystr" where
  "strip s = rev (dropWhile is_space (rev (dropWhile is_space s)))"

text \<open>\<open>s[i:j]\<close> for \<open>0 \<le> i\<close>, \<open>0 \<le> j\<close>: empty when \<open>j \<le> i\<close>, cut at the end of \<open>s\<close>.\<close>

definition slice :: "pystr \<Rightarrow> nat \<Rightarrow> nat \<Rightarrow> pystr" where
  "slice s i j = take (j - i) (drop i s)"

section \<open>format_text\<close>

text \<open>
  \<open>re.sub(c{2,}, repl, s)\<close> for a single character \<open>c\<close>: scanning from the left, every
  maximal run of two or more \<open>c\<close> is replaced by \<open>repl\<close>; a lone \<open>c\<close> stays.
\<close>

function re_sub_runs :: "codepoint \<Rightarrow> pystr \<Rightarrow> pystr \<Rightarrow> pystr" where
  "re_sub_runs c repl [] = []"
| "re_sub_runs c repl (x # xs) =
     (if x = c \<and> xs \<noteq> [] \<and> hd xs = c
      then repl @ re_sub_runs c repl (dropWhile (\<lambda>y. y = c) xs)
      else x # re_sub_runs c repl xs)"
  by pat_completeness auto
termination
  by (relation "measure (\<lambda>(c, repl, s). length s)")
     (auto simp: le_imp_less_Suc length_dropWhile_le)

text \<open>
  \<open>s.replace(old, new)\<close>: the occurrences of \<open>old\<close> are found from the left and do not
  overlap. For an empty \<open>old\<close> Python puts \<open>new\<close> before every character and at the end.
\<close>

function str_replace :: "pystr \<Rightarrow> pystr \<Rightarrow> pystr \<Rightarrow> pystr" where
  "str_replace old new s =
     (if old = [] then new @ concat (map (\<lambda>c. c # new) s)
      else if s = [] then []
      else if take (length old) s = old
        then new @ str_replace old new (drop (length old) s)
      else hd s # str_replace old new (tl s))"
  by pat_completeness auto
termination
  by (relation "measure (\<lambda>(old, new, s). length s)") auto

definition PARAGRAPH_BREAK :: pystr where
  "PARAGRAPH_BREAK = ascii ''PARAGRAPH_BREAK''"

definition format_text :: "pystr \<Rightarrow> pystr" where
  "format_text text =
     (if text = [] then text
      else
        let t1 = re_sub_runs newline PARAGRAPH_BREAK text;
            t2 = str_replace [newline] (ascii '' '') t1;
            t3 = str_replace PARAGRAPH_BREAK [newline, newline] t2;
            t4 = re_sub_runs (of_char CHR '' '') (ascii '' '') t3
        in strip t4)"

text \<open>\<open>old in s\<close>: \<open>old\<close> occurs in \<open>s\<close> as a contiguous substring.\<close>

fun contains :: "pystr \<Rightarrow> pystr \<Rightarrow> bool" where
  "contains old [] = (old = [])"
| "contains old (x # xs) = (take (length old) (x # xs) = old \<or> contains old xs)"


section \<open>process_text_to_csv\<close>

text \<open>
  The separator pattern is \<^verbatim>\<open>## p\.? ([^(#]*)\(#(\d+)\) #{30,}\<close>. Every quantifier in it
  is followed by a literal that the quantified class excludes (a space after the optional
  dot, an opening parenthesis after the label, a closing parenthesis after the digits),
  and the last one ends the pattern, so the backtracking matcher succeeds at a position
  exactly when the greedy choice does. \<open>match_separator s\<close> matches at the head of \<open>s\<close> and
  returns the two groups and the length of the match.
\<close>

definition match_lit :: "pystr \<Rightarrow> pystr \<Rightarrow> pystr option" where
  "match_lit lit s = (if take (length lit) s = lit then Some (drop (length lit) s) else None)"

definition match_separator :: "pystr \<Rightarrow> (pystr \<times> pystr \<times> nat) option" where
  "match_separator s =
     (case match_lit (ascii ''## p'') s of
        None \<Rightarrow> None
      | Some s1 \<Rightarrow>
          let s2 = (case s1 of [] \<Rightarrow> s1 | c # r \<Rightarrow> if c = of_char CHR ''.'' then r else s1) in
          (case match_lit (ascii '' '') s2 of
             None \<Rightarrow> None
           | Some s3 \<Rightarrow>
               let group1 = takeWhile (\<lambda>c. c \<noteq> of_char CHR ''('' \<and> c \<noteq> of_char CHR ''#'') s3;
                   s4 = dropWhile (\<lambda>c. c \<noteq> of_char CHR ''('' \<and> c \<noteq> of_char CHR ''#'') s3 in
               (case match_lit (ascii ''(#'') s4 of
                  None \<Rightarrow> None
                | Some s5 \<Rightarrow>
                    let group2 = takeWhile is_digit s5;
                        s6 = dropWhile is_digit s5 in
                    if group2 = [] then None
                    else
                      (case match_lit (ascii '') '') s6 of
                         None \<Rightarrow> None
                       | Some s7 \<Rightarrow>
                           let hashes = takeWhile (\<lambda>c. c = of_char CHR ''#'') s7;
                               s8 = dropWhile (\<lambda>c. c = of_char CHR ''#'') s7 in
                           if length hashes < 30 then None
                           else Some (group1, group2, length s - length s8)))))"

record re_match =
  m_start :: nat
  m_end :: nat
  m_group1 :: pystr
  m_group2 :: pystr

lemma match_lit_Some: "match_lit lit s = Some r \<longleftrightarrow> s = lit @ r"
proof
  assume "match_lit lit s = Some r"
  then have "take (length lit) s = lit" and "r = drop (length lit) s"
    by (auto simp: match_lit_def split: if_splits)
  then show "s = lit @ r"
    using append_take_drop_id[of "length lit" s] by simp
next
  assume "s = lit @ r"
  then show "match_lit lit s = Some r"
    by (simp add: match_lit_def)
qed

lemma match_lit_length:
  "match_lit lit s = Some r \<Longrightarrow> length s = length lit + length r"
  by (simp add: match_lit_Some)

lemma match_separator_length:
  assumes "match_separator s = Some (g1, g2, n)"
  shows "34 < n \<and> n \<le> length s"
proof -
  from assms obtain s1 s3 s5 s7 where
    m1: "match_lit (ascii ''## p'') s = Some s1" and
    m3: "match_lit (ascii '' '')
           (case s1 of [] \<Rightarrow> s1 | c # r \<Rightarrow> if c = of_char CHR ''.'' then r else s1) = Some s3" and
    m5: "match_lit (ascii ''(#'') (dropWhile (\<lambda>c. c \<noteq> of_char CHR ''('' \<and> c \<noteq> of_char CHR ''#'') s3) = Some s5" and
    m7: "match_lit (ascii '') '') (dropWhile is_digit s5) = Some s7" and
    g2: "takeWhile is_digit s5 \<noteq> []" and
    hs: "30 \<le> length (takeWhile (\<lambda>c. c = of_char CHR ''#'') s7)" and
    n: "n = length s - length (dropWhile (\<lambda>c. c = of_char CHR ''#'') s7)"
    by (auto simp: match_separator_def Let_def split: option.splits if_splits)
  have l1: "length s = 4 + length s1"
    using match_lit_length[OF m1] by (simp add: ascii_def)
  have l3: "length s1 \<ge> 1 + length s3"
    using match_lit_length[OF m3] by (auto simp: ascii_def split: list.splits if_splits)
  have l5: "length s3 \<ge> 2 + length s5"
    using match_lit_length[OF m5]
      length_dropWhile_le[of "\<lambda>c. c \<noteq> of_char CHR ''('' \<and> c \<noteq> of_char CHR ''#''" s3]
    by (simp add: ascii_def)
  have "length s5 = length (takeWhile is_digit s5) + length (dropWhile is_digit s5)"
    by (metis length_append takeWhile_dropWhile_id)
  with g2 have l7: "length s5 \<ge> 1 + (2 + length s7)"
    using match_lit_length[OF m7] by (cases "takeWhile is_digit s5") (auto simp: ascii_def)
  have l8: "length s7 = length (takeWhile (\<lambda>c. c = of_char CHR ''#'') s7)
      + length (dropWhile (\<lambda>c. c = of_char CHR ''#'') s7)"
    by (metis length_append takeWhile_dropWhile_id)
  show ?thesis using l1 l3 l5 l7 l8 hs n by linarith
qed

text \<open>
  \<open>re.finditer\<close>: the non-overlapping matches from the left. After a match the scan goes
  on at its end; where nothing matches it moves one character on.
\<close>

function finditer_from :: "nat \<Rightarrow> pystr \<Rightarrow> re_match list" where
  "finditer_from pos s =
     (if s = [] then []
      else
        (case match_separator s of
           None \<Rightarrow> finditer_from (Suc pos) (tl s)
         | Some (g1, g2, n) \<Rightarrow>
             \<lparr>m_start = pos, m_end = pos + n, m_group1 = g1, m_group2 = g2\<rparr>
               # finditer_from (pos + n) (drop n s)))"
  by pat_completeness auto
termination
proof (relation "measure (\<lambda>(pos, s). length s)", goal_cases)
  case 1
  show ?case by simp
next
  case (2 pos s)
  then show ?case by (cases s) auto
next
  case (3 pos s x2 g1 y g2 n)
  then have "match_separator s = Some (g1, g2, n)" by simp
  from match_separator_length[OF this] 3(1) show ?case by (cases s) auto
qed

declare finditer_from.simps [simp del]

lemma finditer_from_Nil [simp]: "finditer_from pos [] = []"
  by (simp add: finditer_from.simps)

lemma finditer_from_None:
  "s \<noteq> [] \<Longrightarrow> match_separator s = None \<Longrightarrow>
   finditer_from pos s = finditer_from (Suc pos) (tl s)"
  by (subst finditer_from.simps) simp

lemma finditer_from_Some:
  "s \<noteq> [] \<Longrightarrow> match_separator s = Some (g1, g2, n) \<Longrightarrow>
   finditer_from pos s =
     \<lparr>m_start = pos, m_end = pos + n, m_group1 = g1, m_group2 = g2\<rparr>
       # finditer_from (pos + n) (drop n s)"
  by (subst finditer_from.simps) simp

definition finditer :: "pystr \<Rightarrow> re_match list" where
  "finditer s = finditer_from 0 s"

datatype segment_error = NoSeparatorsFound

record page_record =
  page_number :: pystr
  page_content :: pystr
  cleaned_content :: pystr

text \<open>The body of the loop over \<open>range(len(separators))\<close> at index \<open>i\<close>.\<close>

definition page_at :: "pystr \<Rightarrow> re_match list \<Rightarrow> nat \<Rightarrow> page_record" where
  "page_at text_content separators i =
     (let current_separator = separators ! i;
          start_pos = m_end current_separator;
          end_pos = (if i < length separators - 1 then m_start (separators ! (i + 1))
                     else length text_content);
          content = strip (slice text_content start_pos end_pos)
      in \<lparr>page_number = m_group2 current_separator,
          page_content = content,
          cleaned_content = format_text content\<rparr>)"

text \<open>
  \<open>process_text_to_csv\<close> returns the message
  \<^verbatim>\<open>Error: No page separators found in the text file. Check the format.\<close> before it
  opens the output file when there is no separator (\<open>NoSeparatorsFound\<close>); otherwise the
  value is \<open>page_data\<close>, the rows it hands to the CSV writer after the header
  \<open>page, text, clean_text\<close>.
\<close>

definition process_text_to_csv :: "pystr \<Rightarrow> segment_error + page_record list" where
  "process_text_to_csv text_content =
     (let separators = finditer text_content in
      if separators = [] then Inl NoSeparatorsFound
      else Inr (foldl (\<lambda>page_data i. page_data @ [page_at text_content separators i])
                  [] [0..<length separators]))"

section \<open>Inputs used in the examples\<close>

text \<open>
  The separator line of the documented format \<^verbatim>\<open>## p. <label> (#<seq>) ####...\<close>, with
  \<open>n\<close> trailing \<open>#\<close> characters; the dot after \<open>p\<close> is optional in the pattern.
\<close>

definition separator_line :: "bool \<Rightarrow> pystr \<Rightarrow> pystr \<Rightarrow> nat \<Rightarrow> pystr" where
  "separator_line dot label seq n =
     ascii ''## p'' @ (if dot then ascii ''.'' else []) @ ascii '' '' @ label @ ascii ''(#''
       @ seq @ ascii '') '' @ replicate n (of_char CHR ''#'')"

text \<open>The two-page document of the end-to-end scenario and its two separator matches.\<close>

definition two_page_document :: pystr where
  "two_page_document =
     ascii ''## p. 1 (#1) ##############################'' @ [newline] @ ascii ''Hello''
       @ [newline] @ ascii ''world'' @ [newline, newline] @ ascii ''Next para.'' @ [newline]
       @ ascii ''## p. 2 (#2) ##############################'' @ [newline]
       @ ascii ''Page two.''"

definition two_page_separators :: "re_match list" where
  "two_page_separators =
     [\<lparr>m_start = 0, m_end = 43, m_group1 = ascii ''1 '', m_group2 = ascii ''1''\<rparr>,
      \<lparr>m_start = 68, m_end = 111, m_group1 = ascii ''2 '', m_group2 = ascii ''2''\<rparr>]"

text \<open>
  A one-line document whose sequence token is the single character U+0663, ARABIC-INDIC
  DIGIT THREE.
\<close>

definition arabic_digit_document :: pystr where
  "arabic_digit_document = separator_line True [] [1635] 30"


section \<open>Properties of the page segmenter\<close>

lemma page_data_fold:
  "foldl (\<lambda>page_data i. page_data @ [f i]) acc [0..<n] = acc @ map f [0..<n]"
  by (induction n) simp_all

lemma process_text_to_csv_Inr:
  "finditer text_content \<noteq> [] \<Longrightarrow>
   process_text_to_csv text_content =
     Inr (map (page_at text_content (finditer text_content))
            [0..<length (finditer text_content)])"
  by (simp add: process_text_to_csv_def Let_def page_data_fold)

lemma match_separator_group2:
  assumes "match_separator s = Some (g1, g2, n)"
  shows "g2 \<noteq> [] \<and> (\<forall>c \<in> set g2. is_digit c) \<and> set g2 \<subseteq> set s"
proof -
  from assms obtain s1 s3 s5 where
    m1: "match_lit (ascii ''## p'') s = Some s1" and
    m3: "match_lit (ascii '' '')
           (case s1 of [] \<Rightarrow> s1 | c # r \<Rightarrow> if c = of_char CHR ''.'' then r else s1) = Some s3" and
    m5: "match_lit (ascii ''(#'')
           (dropWhile (\<lambda>c. c \<noteq> of_char CHR ''('' \<and> c \<noteq> of_char CHR ''#'') s3) = Some s5" and
    g: "g2 = takeWhile is_digit s5" "g2 \<noteq> []"
    by (auto simp: match_separator_def Let_def split: option.splits if_splits)
  have "set s1 \<subseteq> set s" using m1 by (auto simp: match_lit_Some)
  moreover have "set s3 \<subseteq> set s1"
    using m3 by (auto simp: match_lit_Some ascii_def split: list.splits if_splits)
  moreover have "set s5 \<subseteq> set s3"
  proof -
    from m5 have "set s5 \<subseteq>
        set (dropWhile (\<lambda>c. c \<noteq> of_char CHR ''('' \<and> c \<noteq> of_char CHR ''#'') s3)"
      by (auto simp: match_lit_Some)
    then show ?thesis using set_dropWhileD by fastforce
  qed
  moreover have "set g2 \<subseteq> set s5" using g(1) set_takeWhileD by fastforce
  ultimately have "set g2 \<subseteq> set s" by blast
  with g show ?thesis by (auto dest: set_takeWhileD)
qed

lemma finditer_from_match:
  "m \<in> set (finditer_from pos s) \<Longrightarrow>
   pos \<le> m_start m \<and> m_end m \<le> pos + length s \<and>
   match_separator (drop (m_start m - pos) s)
     = Some (m_group1 m, m_group2 m, m_end m - m_start m)"
proof (induction pos s rule: finditer_from.induct)
  case (1 pos s)
  show ?case
  proof (cases "s = []")
    case True
    with "1.prems" show ?thesis by simp
  next
    case ne: False
    show ?thesis
    proof (cases "match_separator s")
      case None
      with ne "1.prems" have "m \<in> set (finditer_from (Suc pos) (tl s))"
        by (simp add: finditer_from_None)
      from "1.IH"(1)[OF ne None this] have
        ih: "Suc pos \<le> m_start m" "m_end m \<le> Suc pos + length (tl s)"
          "match_separator (drop (m_start m - Suc pos) (tl s))
             = Some (m_group1 m, m_group2 m, m_end m - m_start m)"
        by auto
      from ih(1) have d: "m_start m - pos = Suc (m_start m - Suc pos)" by arith
      from ne obtain a list where s: "s = a # list" by (cases s) auto
      from ih s show ?thesis unfolding d by simp
    next
      case (Some t)
      then obtain g1 g2 n where t: "t = (g1, g2, n)" by (cases t) auto
      from match_separator_length Some t have n: "34 < n" "n \<le> length s" by auto
      from ne Some t "1.prems" consider
        (here) "m = \<lparr>m_start = pos, m_end = pos + n, m_group1 = g1, m_group2 = g2\<rparr>" |
        (later) "m \<in> set (finditer_from (pos + n) (drop n s))"
        by (auto simp: finditer_from_Some)
      then show ?thesis
      proof cases
        case here
        with Some t n show ?thesis by simp
      next
        case later
        from "1.IH"(2)[OF ne Some t[symmetric] refl later] n show ?thesis
          by (auto simp: add.commute)
      qed
    qed
  qed
qed

lemma finditer_from_ordered:
  "sorted_wrt (\<lambda>a b. m_end a \<le> m_start b) (finditer_from pos s)"
proof (induction pos s rule: finditer_from.induct)
  case (1 pos s)
  show ?case
  proof (cases "s = []")
    case True
    then show ?thesis by simp
  next
    case ne: False
    show ?thesis
    proof (cases "match_separator s")
      case None
      with ne "1.IH"(1) show ?thesis by (simp add: finditer_from_None)
    next
      case (Some t)
      then obtain g1 g2 n where t: "t = (g1, g2, n)" by (cases t) auto
      have later: "pos + n \<le> m_start m"
        if "m \<in> set (finditer_from (pos + n) (drop n s))" for m
        using finditer_from_match[OF that] by simp
      from "1.IH"(2)[OF ne Some t[symmetric] refl] later ne Some t show ?thesis
        by (simp add: finditer_from_Some)
    qed
  qed
qed

lemma finditer_from_group2:
  assumes "m \<in> set (finditer_from pos s)"
  shows "m_group2 m \<noteq> [] \<and> (\<forall>c \<in> set (m_group2 m). is_digit c)
           \<and> set (m_group2 m) \<subseteq> set s"
proof -
  from finditer_from_match[OF assms] have
    "match_separator (drop (m_start m - pos) s)
       = Some (m_group1 m, m_group2 m, m_end m - m_start m)" by simp
  from match_separator_group2[OF this] set_drop_subset[of "m_start m - pos" s]
  show ?thesis by blast
qed

text \<open>
  A position where the pattern matches and that lies inside no match of the scan is the
  start of a match of the scan.
\<close>

lemma finditer_from_finds:
  "match_separator (drop (q - pos) s) = Some (g1, g2, n) \<Longrightarrow> pos \<le> q \<Longrightarrow>
   \<forall>m \<in> set (finditer_from pos s). \<not> (m_start m < q \<and> q < m_end m) \<Longrightarrow>
   \<lparr>m_start = q, m_end = q + n, m_group1 = g1, m_group2 = g2\<rparr> \<in> set (finditer_from pos s)"
proof (induction pos s rule: finditer_from.induct)
  case (1 pos s)
  note found = "1.prems"(1) and le = "1.prems"(2) and free = "1.prems"(3)
  from match_separator_length[OF found] have "drop (q - pos) s \<noteq> []" by auto
  then have ne: "s \<noteq> []" by auto
  show ?case
  proof (cases "match_separator s")
    case None
    with found have "q \<noteq> pos" by auto
    with le have lt: "Suc pos \<le> q" by simp
    then have d: "q - pos = Suc (q - Suc pos)" by arith
    from ne obtain a list where s: "s = a # list" by (cases s) auto
    have f': "match_separator (drop (q - Suc pos) (tl s)) = Some (g1, g2, n)"
      using found unfolding d s by simp
    have eq: "finditer_from pos s = finditer_from (Suc pos) (tl s)"
      using ne None by (rule finditer_from_None)
    from "1.IH"(1)[OF ne None f' lt] free show ?thesis unfolding eq by simp
  next
    case (Some t)
    then obtain g1' g2' n' where t: "t = (g1', g2', n')" by (cases t) auto
    have eq: "finditer_from pos s =
        \<lparr>m_start = pos, m_end = pos + n', m_group1 = g1', m_group2 = g2'\<rparr>
          # finditer_from (pos + n') (drop n' s)"
      using ne Some t by (simp add: finditer_from_Some)
    show ?thesis
    proof (cases "q = pos")
      case True
      with found Some t have "g1' = g1" "g2' = g2" "n' = n" by auto
      with True show ?thesis unfolding eq by simp
    next
      case False
      with le have "pos < q" by simp
      moreover from free have "\<not> (pos < q \<and> q < pos + n')" unfolding eq by simp
      ultimately have ge: "pos + n' \<le> q" by simp
      then have "drop (q - (pos + n')) (drop n' s) = drop (q - pos) s" by simp
      with found have f': "match_separator (drop (q - (pos + n')) (drop n' s))
          = Some (g1, g2, n)" by simp
      from free have free': "\<forall>m \<in> set (finditer_from (pos + n') (drop n' s)).
          \<not> (m_start m < q \<and> q < m_end m)" unfolding eq by simp
      from "1.IH"(2)[OF ne Some t[symmetric] refl f' ge free'] show ?thesis
        unfolding eq by simp
    qed
  qed
qed

text \<open>
  Claim C5. A document with \<open>N \<ge> 1\<close> separator matches yields exactly \<open>N\<close> page
  records, in the order of the matches: record \<open>i\<close> carries the sequence token of match
  \<open>i\<close>, and its raw text is the stripped substring from the end of match \<open>i\<close> to the
  start of match \<open>i + 1\<close>, or to the end of the document for the last match. The
  matches themselves follow each other without overlap.
\<close>

theorem segmenter_records:
  assumes "finditer text_content = separators" and "separators \<noteq> []"
  shows "\<exists>page_data. process_text_to_csv text_content = Inr page_data
           \<and> length page_data = length separators
           \<and> (\<forall>i < length separators.
                 page_number (page_data ! i) = m_group2 (separators ! i)
               \<and> page_content (page_data ! i) =
                   strip (slice text_content (m_end (separators ! i))
                     (if Suc i < length separators then m_start (separators ! Suc i)
                      else length text_content))
               \<and> cleaned_content (page_data ! i) = format_text (page_content (page_data ! i))
               \<and> (Suc i < length separators \<longrightarrow>
                     m_end (separators ! i) \<le> m_start (separators ! Suc i)))"
proof -
  let ?pd = "map (page_at text_content separators) [0..<length separators]"
  from assms have run: "process_text_to_csv text_content = Inr ?pd"
    using process_text_to_csv_Inr[of text_content] by simp
  have ord: "m_end (separators ! i) \<le> m_start (separators ! Suc i)"
    if "Suc i < length separators" for i
  proof -
    have "sorted_wrt (\<lambda>a b. m_end a \<le> m_start b) separators"
      using finditer_from_ordered[of 0 text_content] assms(1) by (simp add: finditer_def)
    then show ?thesis using that by (simp add: sorted_wrt_iff_nth_less)
  qed
  have each: "page_number (?pd ! i) = m_group2 (separators ! i)
      \<and> page_content (?pd ! i) =
          strip (slice text_content (m_end (separators ! i))
            (if Suc i < length separators then m_start (separators ! Suc i)
             else length text_content))
      \<and> cleaned_content (?pd ! i) = format_text (page_content (?pd ! i))"
    if "i < length separators" for i
  proof -
    have "(i < length separators - 1) = (Suc i < length separators)" by arith
    with that show ?thesis by (simp add: page_at_def Let_def)
  qed
  from run each ord show ?thesis by auto
qed

theorem segmenter_records_witness:
  "finditer two_page_document = two_page_separators \<and> two_page_separators \<noteq> [] \<and>
   (\<exists>page_data. process_text_to_csv two_page_document = Inr page_data \<and> length page_data = 2
      \<and> page_content (page_data ! 1) = ascii ''Page two.'')"
proof -
  have f: "finditer two_page_document = two_page_separators" by code_simp
  have ne: "two_page_separators \<noteq> []" by (simp add: two_page_separators_def)
  have c: "strip (slice two_page_document 111 (length two_page_document)) = ascii ''Page two.''"
    by code_simp
  from segmenter_records[OF f ne] obtain page_data where
    r: "process_text_to_csv two_page_document = Inr page_data" and
    l: "length page_data = length two_page_separators" and
    e: "\<forall>i < length two_page_separators. page_content (page_data ! i) =
          strip (slice two_page_document (m_end (two_page_separators ! i))
            (if Suc i < length two_page_separators then m_start (two_page_separators ! Suc i)
             else length two_page_document))"
    by blast
  from e have "page_content (page_data ! 1) =
      strip (slice two_page_document 111 (length two_page_document))"
    by (simp add: two_page_separators_def)
  with f ne r l c show ?thesis by (simp add: two_page_separators_def)
qed

text \<open>
  Claim C6. A document with no separator match is reported as \<open>NoSeparatorsFound\<close>: no
  page record is produced, not even a single degenerate page, and nothing is handed to the
  CSV writer.
\<close>

theorem no_separators_found:
  assumes "finditer text_content = []"
  shows "process_text_to_csv text_content = Inl NoSeparatorsFound"
  using assms by (simp add: process_text_to_csv_def)

theorem no_separators_found_witness:
  "finditer (ascii ''Hello world'') = []
   \<and> process_text_to_csv (ascii ''Hello world'') = Inl NoSeparatorsFound"
proof -
  have f: "finditer (ascii ''Hello world'') = []" by code_simp
  from f no_separators_found[OF f] show ?thesis by simp
qed

lemma takeWhile_stop:
  "\<forall>c \<in> set xs. P c \<Longrightarrow> \<not> P y \<Longrightarrow> takeWhile P (xs @ y # ys) = xs"
  by (induction xs) auto

lemma dropWhile_stop:
  "\<forall>c \<in> set xs. P c \<Longrightarrow> \<not> P y \<Longrightarrow> dropWhile P (xs @ y # ys) = y # ys"
  by (induction xs) auto

lemma not_digit_rparen: "\<not> is_digit (of_char CHR '')'')"
  by (simp add: is_digit_def in_ranges_def decimal_ranges_def)

text \<open>The pattern at the head of a separator line, up to the closing parenthesis.\<close>

lemma match_separator_line_cases:
  assumes label: "\<forall>c \<in> set label. c \<noteq> of_char CHR ''('' \<and> c \<noteq> of_char CHR ''#''"
  shows "match_separator (separator_line dot label seq n @ rest) =
     (let s5 = seq @ ascii '') '' @ replicate n (of_char CHR ''#'') @ rest;
          group2 = takeWhile is_digit s5 in
      if group2 = [] then None
      else
        (case match_lit (ascii '') '') (dropWhile is_digit s5) of
           None \<Rightarrow> None
         | Some s7 \<Rightarrow>
             if length (takeWhile (\<lambda>c. c = of_char CHR ''#'') s7) < 30 then None
             else Some (label, group2,
               length (separator_line dot label seq n @ rest)
                 - length (dropWhile (\<lambda>c. c = of_char CHR ''#'') s7))))"
proof -
  let ?P = "\<lambda>c. c \<noteq> of_char CHR ''('' \<and> c \<noteq> of_char CHR ''#''"
  let ?s5 = "seq @ ascii '') '' @ replicate n (of_char CHR ''#'') @ rest"
  let ?s3 = "label @ ascii ''(#'' @ ?s5"
  let ?s1 = "(if dot then ascii ''.'' else []) @ ascii '' '' @ ?s3"
  have whole: "separator_line dot label seq n @ rest = ascii ''## p'' @ ?s1"
    by (simp add: separator_line_def)
  have m1: "match_lit (ascii ''## p'') (separator_line dot label seq n @ rest) = Some ?s1"
    unfolding whole match_lit_Some ..
  have s2: "(case ?s1 of [] \<Rightarrow> ?s1 | c # r \<Rightarrow> if c = of_char CHR ''.'' then r else ?s1)
             = ascii '' '' @ ?s3"
    by (simp add: ascii_def)
  have m3: "match_lit (ascii '' '') (ascii '' '' @ ?s3) = Some ?s3"
    unfolding match_lit_Some ..
  have lp: "ascii ''(#'' @ ?s5 = of_char CHR ''('' # of_char CHR ''#'' # ?s5"
    by (simp add: ascii_def)
  have g1: "takeWhile ?P ?s3 = label"
    unfolding lp using takeWhile_stop[of label ?P "of_char CHR ''(''"] label by simp
  have d1: "dropWhile ?P ?s3 = ascii ''(#'' @ ?s5"
    unfolding lp using dropWhile_stop[of label ?P "of_char CHR ''(''"] label by simp
  have m5: "match_lit (ascii ''(#'') (ascii ''(#'' @ ?s5) = Some ?s5"
    unfolding match_lit_Some ..
  show ?thesis
    unfolding match_separator_def
    by (simp only: m1 s2 m3 g1 d1 m5 Let_def option.case)
qed

lemma match_separator_line_digits:
  assumes label: "\<forall>c \<in> set label. c \<noteq> of_char CHR ''('' \<and> c \<noteq> of_char CHR ''#''"
    and seq: "seq \<noteq> []" "\<forall>c \<in> set seq. is_digit c"
    and n: "30 \<le> n"
  shows "\<exists>k. match_separator (separator_line dot label seq n @ rest) = Some (label, seq, k)"
proof -
  let ?H = "\<lambda>c. c = of_char CHR ''#''"
  let ?s7 = "replicate n (of_char CHR ''#'') @ rest"
  let ?s5 = "seq @ ascii '') '' @ ?s7"
  have rp: "ascii '') '' @ ?s7 = of_char CHR '')'' # of_char CHR '' '' # ?s7"
    by (simp add: ascii_def)
  have g2: "takeWhile is_digit ?s5 = seq"
    unfolding rp using takeWhile_stop[of seq is_digit "of_char CHR '')''"] seq(2)
      not_digit_rparen by simp
  have d2: "dropWhile is_digit ?s5 = ascii '') '' @ ?s7"
    unfolding rp using dropWhile_stop[of seq is_digit "of_char CHR '')''"] seq(2)
      not_digit_rparen by simp
  have m7: "match_lit (ascii '') '') (ascii '') '' @ ?s7) = Some ?s7"
    unfolding match_lit_Some ..
  have "takeWhile ?H ?s7 = replicate n (of_char CHR ''#'') @ takeWhile ?H rest"
    by (rule takeWhile_append2) simp
  with n have hs: "\<not> length (takeWhile ?H ?s7) < 30" by simp
  show ?thesis
    unfolding match_separator_line_cases[OF label]
    by (simp only: g2 d2 m7 hs seq(1) Let_def option.case if_False) blast
qed

lemma match_separator_line_other:
  assumes label: "\<forall>c \<in> set label. c \<noteq> of_char CHR ''('' \<and> c \<noteq> of_char CHR ''#''"
    and seq: "seq = [] \<or> (\<exists>c \<in> set seq. \<not> is_digit c)"
    and rp: "of_char CHR '')'' \<notin> set seq"
  shows "match_separator (separator_line dot label seq n @ rest) = None"
proof -
  let ?s5 = "seq @ ascii '') '' @ replicate n (of_char CHR ''#'') @ rest"
  show ?thesis
  proof (cases "takeWhile is_digit ?s5 = []")
    case True
    then show ?thesis
      unfolding match_separator_line_cases[OF label] by (simp add: Let_def)
  next
    case False
    have "seq \<noteq> []"
    proof
      assume "seq = []"
      then have "takeWhile is_digit ?s5 = []"
        using not_digit_rparen by (simp add: ascii_def)
      with False show False by simp
    qed
    with seq have "\<exists>x \<in> set seq. \<not> is_digit x" by blast
    from split_list_first_prop[OF this] obtain xs d zs where
      dz: "seq = xs @ d # zs" "\<not> is_digit d" "\<forall>x \<in> set xs. is_digit x"
      by auto
    have "dropWhile is_digit ?s5 = d # zs @ ascii '') '' @ replicate n (of_char CHR ''#'') @ rest"
      using dropWhile_stop[of xs is_digit d] dz by simp
    moreover from rp dz(1) have "d \<noteq> of_char CHR '')''" by auto
    ultimately have "match_lit (ascii '') '') (dropWhile is_digit ?s5) = None"
      by (simp add: match_lit_def ascii_def)
    then show ?thesis
      unfolding match_separator_line_cases[OF label] by (simp add: Let_def)
  qed
qed

lemma separator_found:
  assumes line: "drop p text_content = separator_line dot label seq n @ rest"
    and label: "\<forall>c \<in> set label. c \<noteq> of_char CHR ''('' \<and> c \<noteq> of_char CHR ''#''"
    and n: "30 \<le> n"
    and seq: "seq \<noteq> []" "\<forall>c \<in> set seq. is_digit c"
    and free: "\<forall>m \<in> set (finditer text_content). \<not> (m_start m < p \<and> p < m_end m)"
  shows "\<exists>i < length (finditer text_content).
           m_start (finditer text_content ! i) = p
         \<and> m_group1 (finditer text_content ! i) = label
         \<and> m_group2 (finditer text_content ! i) = seq"
proof -
  let ?seps = "finditer text_content"
  from match_separator_line_digits[OF label seq n, of dot rest] obtain k where
    "match_separator (separator_line dot label seq n @ rest) = Some (label, seq, k)"
    by blast
  with line have m: "match_separator (drop (p - 0) text_content) = Some (label, seq, k)"
    by simp
  from free have free': "\<forall>m \<in> set (finditer_from 0 text_content).
      \<not> (m_start m < p \<and> p < m_end m)"
    unfolding finditer_def .
  have "\<lparr>m_start = p, m_end = p + k, m_group1 = label, m_group2 = seq\<rparr>
      \<in> set (finditer_from 0 text_content)"
    by (rule finditer_from_finds[OF m _ free']) simp
  then have "\<lparr>m_start = p, m_end = p + k, m_group1 = label, m_group2 = seq\<rparr> \<in> set ?seps"
    unfolding finditer_def .
  then obtain i where i: "i < length ?seps"
    "?seps ! i = \<lparr>m_start = p, m_end = p + k, m_group1 = label, m_group2 = seq\<rparr>"
    unfolding in_set_conv_nth by blast
  show ?thesis
  proof (intro exI conjI)
    show "i < length ?seps" by (rule i(1))
    show "m_start (?seps ! i) = p" unfolding i(2) by simp
    show "m_group1 (?seps ! i) = label" unfolding i(2) by simp
    show "m_group2 (?seps ! i) = seq" unfolding i(2) by simp
  qed
qed

lemma separator_not_found:
  assumes line: "drop p text_content = separator_line dot label seq n @ rest"
    and label: "\<forall>c \<in> set label. c \<noteq> of_char CHR ''('' \<and> c \<noteq> of_char CHR ''#''"
    and seq: "seq = [] \<or> (\<exists>c \<in> set seq. \<not> is_digit c)"
    and rp: "of_char CHR '')'' \<notin> set seq"
    and m: "m \<in> set (finditer text_content)"
  shows "m_start m \<noteq> p"
proof
  assume eq: "m_start m = p"
  from m have "m \<in> set (finditer_from 0 text_content)" unfolding finditer_def .
  from finditer_from_match[OF this] have
    "match_separator (drop (m_start m - 0) text_content)
       = Some (m_group1 m, m_group2 m, m_end m - m_start m)" by blast
  then have "match_separator (separator_line dot label seq n @ rest)
       = Some (m_group1 m, m_group2 m, m_end m - m_start m)"
    unfolding eq using line by simp
  with match_separator_line_other[OF label seq rp, of dot n rest] show False by simp
qed

text \<open>
  Claim C8, as amended. Take a separator line of the documented format, with at least 30
  trailing \<open>#\<close> and a label that contains neither \<open>(\<close> nor \<open>#\<close>, starting at
  position \<open>p\<close> of a document. If its sequence token is a non-empty string of decimal
  digits and \<open>p\<close> lies inside no match of the scan, the segmenter recognizes the line:
  a match starts at \<open>p\<close>, and the record of that match carries the token as it is written,
  as text, with no coercion to an integer. If the token is empty or contains a character
  that is not a decimal digit (and no closing parenthesis), as a roman numeral does, the
  line is not recognized: no match starts at \<open>p\<close>.
\<close>

theorem separator_recognition:
  assumes line: "drop p text_content = separator_line dot label seq n @ rest"
    and label: "\<forall>c \<in> set label. c \<noteq> of_char CHR ''('' \<and> c \<noteq> of_char CHR ''#''"
    and n: "30 \<le> n"
  shows "(seq \<noteq> [] \<and> (\<forall>c \<in> set seq. is_digit c)
            \<and> (\<forall>m \<in> set (finditer text_content). \<not> (m_start m < p \<and> p < m_end m))
          \<longrightarrow> (\<exists>page_data i. process_text_to_csv text_content = Inr page_data
                 \<and> length page_data = length (finditer text_content)
                 \<and> i < length page_data
                 \<and> m_start (finditer text_content ! i) = p
                 \<and> m_group1 (finditer text_content ! i) = label
                 \<and> page_number (page_data ! i) = seq))
       \<and> ((seq = [] \<or> (\<exists>c \<in> set seq. \<not> is_digit c)) \<and> of_char CHR '')'' \<notin> set seq
          \<longrightarrow> (\<forall>m \<in> set (finditer text_content). m_start m \<noteq> p))"
proof (rule conjI)
  let ?seps = "finditer text_content"
  let ?pd = "map (page_at text_content ?seps) [0..<length ?seps]"
  show "seq \<noteq> [] \<and> (\<forall>c \<in> set seq. is_digit c)
            \<and> (\<forall>m \<in> set ?seps. \<not> (m_start m < p \<and> p < m_end m))
          \<longrightarrow> (\<exists>page_data i. process_text_to_csv text_content = Inr page_data
                 \<and> length page_data = length ?seps
                 \<and> i < length page_data
                 \<and> m_start (?seps ! i) = p
                 \<and> m_group1 (?seps ! i) = label
                 \<and> page_number (page_data ! i) = seq)"
  proof
    assume h: "seq \<noteq> [] \<and> (\<forall>c \<in> set seq. is_digit c)
            \<and> (\<forall>m \<in> set ?seps. \<not> (m_start m < p \<and> p < m_end m))"
    then have h1: "seq \<noteq> []" and h2: "\<forall>c \<in> set seq. is_digit c"
      and h3: "\<forall>m \<in> set ?seps. \<not> (m_start m < p \<and> p < m_end m)"
      by blast+
    from separator_found[OF line label n h1 h2 h3] obtain i where
      i: "i < length ?seps" "m_start (?seps ! i) = p" "m_group1 (?seps ! i) = label"
        "m_group2 (?seps ! i) = seq"
      by blast
    from i(1) have ne: "?seps \<noteq> []" by auto
    have run: "process_text_to_csv text_content = Inr ?pd"
      by (rule process_text_to_csv_Inr[OF ne])
    have len: "length ?pd = length ?seps" by simp
    have pn: "page_number (?pd ! i) = seq"
      using i(1) i(4) by (simp add: page_at_def Let_def)
    from run len i pn show "\<exists>page_data i. process_text_to_csv text_content = Inr page_data
                 \<and> length page_data = length ?seps
                 \<and> i < length page_data
                 \<and> m_start (?seps ! i) = p
                 \<and> m_group1 (?seps ! i) = label
                 \<and> page_number (page_data ! i) = seq"
      by metis
  qed
  show "(seq = [] \<or> (\<exists>c \<in> set seq. \<not> is_digit c)) \<and> of_char CHR '')'' \<notin> set seq
          \<longrightarrow> (\<forall>m \<in> set ?seps. m_start m \<noteq> p)"
    using separator_not_found[OF line label] by blast
qed

theorem separator_recognition_witness:
  "(\<exists>page_data i. process_text_to_csv two_page_document = Inr page_data
      \<and> length page_data = length (finditer two_page_document)
      \<and> i < length page_data
      \<and> m_start (finditer two_page_document ! i) = 68
      \<and> m_group1 (finditer two_page_document ! i) = ascii ''2 ''
      \<and> page_number (page_data ! i) = ascii ''2'')
   \<and> list_all (\<lambda>m. m_start m \<noteq> 0)
        (finditer (separator_line True (ascii ''xiv '') (ascii ''xx'') 30))"
proof -
  have line: "drop 68 two_page_document =
      separator_line True (ascii ''2 '') (ascii ''2'') 30 @ ([newline] @ ascii ''Page two.'')"
    by code_simp
  have label: "\<forall>c \<in> set (ascii ''2 ''). c \<noteq> of_char CHR ''('' \<and> c \<noteq> of_char CHR ''#''"
    by (simp add: ascii_def)
  have seq: "ascii ''2'' \<noteq> [] \<and> (\<forall>c \<in> set (ascii ''2''). is_digit c)"
    by (simp add: ascii_def is_digit_def in_ranges_def decimal_ranges_def)
  have f: "finditer two_page_document = two_page_separators" by code_simp
  have free: "\<forall>m \<in> set (finditer two_page_document). \<not> (m_start m < 68 \<and> 68 < m_end m)"
    unfolding f by (simp add: two_page_separators_def)
  have pos: "\<exists>page_data i. process_text_to_csv two_page_document = Inr page_data
      \<and> length page_data = length (finditer two_page_document)
      \<and> i < length page_data
      \<and> m_start (finditer two_page_document ! i) = 68
      \<and> m_group1 (finditer two_page_document ! i) = ascii ''2 ''
      \<and> page_number (page_data ! i) = ascii ''2''"
    using separator_recognition[OF line label] seq free by simp
  have line': "drop 0 (separator_line True (ascii ''xiv '') (ascii ''xx'') 30) =
      separator_line True (ascii ''xiv '') (ascii ''xx'') 30 @ []"
    by simp
  have label': "\<forall>c \<in> set (ascii ''xiv ''). c \<noteq> of_char CHR ''('' \<and> c \<noteq> of_char CHR ''#''"
    by (simp add: ascii_def)
  have seq': "(ascii ''xx'' = [] \<or> (\<exists>c \<in> set (ascii ''xx''). \<not> is_digit c))
      \<and> of_char CHR '')'' \<notin> set (ascii ''xx'')"
    by (simp add: ascii_def is_digit_def in_ranges_def decimal_ranges_def)
  have neg: "list_all (\<lambda>m. m_start m \<noteq> 0)
      (finditer (separator_line True (ascii ''xiv '') (ascii ''xx'') 30))"
    using separator_recognition[OF line' label'] seq' by (simp add: list_all_iff)
  from pos neg show ?thesis by blast
qed

text \<open>
  The separator \<^verbatim>\<open>## p. xiv (#xx) ##############################\<close> conforms to the
  documented format but its token is not numeric: no separator is found.
\<close>

theorem roman_separator_not_recognized:
  "process_text_to_csv (separator_line True (ascii ''xiv '') (ascii ''xx'') 30)
     = Inl NoSeparatorsFound"
  by code_simp

text \<open>
  Claim C10, as amended. Every page number produced by the segmenter is a non-empty
  string of the characters that \<open>\d\<close> matches, the decimal digits of Unicode; in a
  document where the only decimal digits are the ASCII digits \<open>0\<close> to \<open>9\<close> (every ASCII
  document is one), each page number is a non-empty string of ASCII digits, that is, a
  decimal integer literal.
\<close>

theorem page_numbers_unicode_digits:
  assumes "process_text_to_csv text_content = Inr page_data" and "r \<in> set page_data"
  shows "page_number r \<noteq> [] \<and> (\<forall>c \<in> set (page_number r). is_digit c)
           \<and> ((\<forall>c \<in> set text_content. is_digit c \<longrightarrow> ascii_digit c)
                \<longrightarrow> (\<forall>c \<in> set (page_number r). ascii_digit c))"
proof -
  let ?seps = "finditer text_content"
  from assms(1) have ne: "?seps \<noteq> []"
    by (auto simp: process_text_to_csv_def Let_def split: if_splits)
  with assms(1) have "page_data = map (page_at text_content ?seps) [0..<length ?seps]"
    using process_text_to_csv_Inr[of text_content] by simp
  with assms(2) obtain i where i: "i < length ?seps" and r: "r = page_at text_content ?seps i"
    by auto
  from r have pn: "page_number r = m_group2 (?seps ! i)"
    by (simp add: page_at_def Let_def)
  from i have "?seps ! i \<in> set (finditer_from 0 text_content)"
    by (simp add: finditer_def)
  from finditer_from_group2[OF this] pn
  have d: "page_number r \<noteq> []" "\<forall>c \<in> set (page_number r). is_digit c"
    "set (page_number r) \<subseteq> set text_content" by auto
  then show ?thesis by blast
qed

theorem page_numbers_unicode_digits_witness:
  "process_text_to_csv (separator_line True (ascii ''xiv '') (ascii ''020'') 30) =
      Inr [\<lparr>page_number = ascii ''020'', page_content = [], cleaned_content = []\<rparr>]
   \<and> ascii ''020'' \<noteq> [] \<and> list_all is_digit (ascii ''020'')
   \<and> list_all ascii_digit (ascii ''020'')"
proof -
  let ?t = "separator_line True (ascii ''xiv '') (ascii ''020'') 30"
  let ?r = "\<lparr>page_number = ascii ''020'', page_content = [], cleaned_content = []\<rparr>"
  have run: "process_text_to_csv ?t = Inr [?r]"
    by code_simp
  have doc: "\<forall>c \<in> set ?t. is_digit c \<longrightarrow> ascii_digit c"
    by code_simp
  from page_numbers_unicode_digits[OF run, of ?r] doc
  show ?thesis using run by (simp add: list_all_iff)
qed

text \<open>
  The token U+0663 is a decimal digit of Unicode, so the line is a separator, and its page
  number is not a string of ASCII digits.
\<close>

theorem arabic_digit_page_number:
  "process_text_to_csv arabic_digit_document =
     Inr [\<lparr>page_number = [1635], page_content = [], cleaned_content = []\<rparr>]
   \<and> \<not> ascii_digit 1635"
proof -
  have "process_text_to_csv arabic_digit_document =
     Inr [\<lparr>page_number = [1635], page_content = [], cleaned_content = []\<rparr>]"
    by code_simp
  then show ?thesis by (simp add: ascii_digit_def)
qed

section \<open>Properties of format_text\<close>

lemma contains_iff: "contains old s \<longleftrightarrow> (\<exists>u v. s = u @ old @ v)"
proof (induction s)
  case Nil
  show ?case by auto
next
  case (Cons x xs)
  show ?case
  proof
    assume "contains old (x # xs)"
    then consider "take (length old) (x # xs) = old" | "contains old xs" by auto
    then show "\<exists>u v. x # xs = u @ old @ v"
    proof cases
      case 1
      then have "x # xs = [] @ old @ drop (length old) (x # xs)"
        by (metis append_Nil append_take_drop_id)
      then show ?thesis by blast
    next
      case 2
      with Cons.IH obtain u v where "xs = u @ old @ v" by blast
      then have "x # xs = (x # u) @ old @ v" by simp
      then show ?thesis by blast
    qed
  next
    assume "\<exists>u v. x # xs = u @ old @ v"
    then obtain u v where uv: "x # xs = u @ old @ v" by blast
    show "contains old (x # xs)"
    proof (cases u)
      case Nil
      with uv have "take (length old) (x # xs) = old" by simp
      then show ?thesis by simp
    next
      case (Cons a u')
      with uv have "xs = u' @ old @ v" by simp
      with Cons.IH have "contains old xs" by blast
      then show ?thesis by simp
    qed
  qed
qed

lemma contains_append: "contains old b \<Longrightarrow> contains old (a @ b @ c)"
  unfolding contains_iff by (metis append.assoc)

lemma contains_drop: "contains old (drop k s) \<Longrightarrow> contains old s"
  using contains_append[of old "drop k s" "take k s" "[]"] by simp





declare str_replace.simps [simp del]






























lemma contains_Cons: "\<not> contains old (x # xs) \<Longrightarrow> \<not> contains old xs"
  by simp












end
